theory Spec2Isabelle
  imports Main "HOL-Library.Char_ord" "HOL-Library.List_Lexorder"
begin

section \<open>Data model\<close>

text \<open>
  The room model of \<^verbatim>\<open>src/lib/room.cpp\<close>. A \<^verbatim>\<open>User*\<close> is a pointer into the
  connection's user registry, which hands out one object per user id
  (\<^verbatim>\<open>connection->user(id)\<close>); the model identifies the pointer with that id, so
  \<^verbatim>\<open>u->id()\<close> is \<open>u\<close> itself and pointer equality is equality of ids.
\<close>

type_synonym QString = string
type_synonym User = string

text \<open>
  Modelled from the spec: the enumerations \<^verbatim>\<open>JoinState\<close> and
  \<^verbatim>\<open>MembershipType\<close>, whose headers are not among the sources, with the values
  the specification lists.
\<close>

datatype JoinState = JoinState_Join | JoinState_Invite | JoinState_Leave

datatype MembershipType = Invite | Join | Knock | Leave | Ban

record Receipt =
  userId :: QString
  timestamp :: nat

text \<open>
  Modelled from the spec: the event classes, whose headers are not among the
  sources, as \<^verbatim>\<open>room.cpp\<close> reads them. An
  \<^verbatim>\<open>Event\<close> with its \<^verbatim>\<open>type()\<close> tag and the payload of the subclass the tag
  selects. \<open>RoomMemberEvent uid m dn\<close> carries \<^verbatim>\<open>userId()\<close>, \<^verbatim>\<open>membership()\<close>
  and \<^verbatim>\<open>displayName()\<close>. Every event has the key that orders the timeline.
\<close>

datatype EventContent =
    RoomMessageEvent QString
  | RoomNameEvent QString
  | RoomAliasesEvent "QString list"
  | RoomCanonicalAliasEvent QString
  | RoomTopicEvent QString
  | RoomMemberEvent QString MembershipType QString
  | TypingEvent "QString list"
  | ReceiptEvent "(QString \<times> Receipt list) list"
  | UnknownEvent

datatype Event = Event (orderKey: nat) (content: EventContent)

text \<open>
  Modelled from the spec: \<^verbatim>\<open>SyncRoomData\<close>, with the fields
  \<^verbatim>\<open>Room::updateData\<close> reads.
\<close>

record SyncRoomData =
  sync_joinState :: JoinState
  timelinePrevBatch :: QString
  state :: "Event list"
  timeline :: "Event list"
  ephemeral :: "Event list"
  sync_highlightCount :: int
  sync_notificationCount :: int

text \<open>
  Modelled from the spec: the finished \<^verbatim>\<open>RoomMessagesJob\<close> as
  \<^verbatim>\<open>gotMessages\<close> reads it: \<^verbatim>\<open>error()\<close>, \<^verbatim>\<open>errorString()\<close>,
  \<^verbatim>\<open>events()\<close> and \<^verbatim>\<open>end()\<close>.
\<close>

record RoomMessagesJob =
  job_error :: int
  errorString :: QString
  job_events :: "Event list"
  job_end :: QString

text \<open>The signals of \<^verbatim>\<open>Room\<close>, logged in the order they are emitted.\<close>

datatype Signal =
    joinStateChanged JoinState JoinState
  | notificationCountChanged
  | highlightCountChanged
  | topicChanged
  | userAdded User
  | userRemoved User
  | namesChanged
  | typingChanged
  | newMessage Event

text \<open>
  The fields of \<^verbatim>\<open>Room::Private\<close>, and before them what the room reaches through
  its connection: the build flag \<^verbatim>\<open>NDEBUG\<close>, the logged-in user
  \<^verbatim>\<open>connection->user()\<close>, every user's current \<^verbatim>\<open>name()\<close>, the
  \<^verbatim>\<open>nameChanged\<close> connections to \<^verbatim>\<open>Room::userRenamed\<close> (one entry per
  \<^verbatim>\<open>connect\<close>), the tokens of the issued and unfinished message jobs, and the
  signals emitted so far. \<open>users\<close> is the multi-hash from name to user, kept as
  a list of pairs, newest first; \<^verbatim>\<open>id\<close> is \<open>room_id\<close>.
\<close>

record Room =
  NDEBUG :: bool
  me :: User
  userName :: "User \<Rightarrow> QString"
  nameChangedSlots :: "User list"
  jobs :: "QString list"
  emitted :: "Signal list"
  messageEvents :: "Event list"
  room_id :: QString
  aliases :: "QString list"
  canonicalAlias :: QString
  name :: QString
  displayname :: QString
  topic :: QString
  joinState :: JoinState
  highlightCount :: int
  notificationCount :: int
  users :: "(QString \<times> User) list"
  usersTyping :: "User list"
  usersLeft :: "User list"
  lastReadEvent :: "User \<Rightarrow> QString option"
  prevBatch :: QString
  gettingNewContent :: bool

definition emit :: "Signal \<Rightarrow> Room \<Rightarrow> Room" where
  "emit s r = r\<lparr>emitted := emitted r @ [s]\<rparr>"

section \<open>Library operations the room calls\<close>

subsection \<open>The multi-hash\<close>

text \<open>
  \<^verbatim>\<open>values(key)\<close>, \<^verbatim>\<open>insert(key, value)\<close>, which adds an item even when the
  pair is there already, and \<^verbatim>\<open>remove(key, value)\<close>, which removes every item
  with that key and value.
\<close>

definition values_of :: "('k \<times> 'v) list \<Rightarrow> 'k \<Rightarrow> 'v list" where
  "values_of h k = map snd (filter (\<lambda>p. fst p = k) h)"

definition hash_insert :: "'k \<Rightarrow> 'v \<Rightarrow> ('k \<times> 'v) list \<Rightarrow> ('k \<times> 'v) list" where
  "hash_insert k v h = (k, v) # h"

definition hash_remove :: "'k \<Rightarrow> 'v \<Rightarrow> ('k \<times> 'v) list \<Rightarrow> ('k \<times> 'v) list" where
  "hash_remove k v h = filter (\<lambda>p. p \<noteq> (k, v)) h"

subsection \<open>\<^verbatim>\<open>QString::arg\<close>\<close>

text \<open>
  \<^verbatim>\<open>arg\<close> replaces the place markers with the lowest number. A marker is
  \<^verbatim>\<open>%\<close>, an optional \<^verbatim>\<open>L\<close>, and one or two digits; \<open>escapeAt\<close> reads what
  follows a \<^verbatim>\<open>%\<close> and returns the number and how many characters the marker
  takes after the \<^verbatim>\<open>%\<close>. A string without markers is returned as it is.
  The locale of an \<^verbatim>\<open>L\<close> marker is not modelled: it takes the same text.
\<close>

definition digitValue :: "char \<Rightarrow> nat option" where
  "digitValue c = map_of
     [(CHR ''0'', 0), (CHR ''1'', 1), (CHR ''2'', 2), (CHR ''3'', 3), (CHR ''4'', 4),
      (CHR ''5'', 5), (CHR ''6'', 6), (CHR ''7'', 7), (CHR ''8'', 8), (CHR ''9'', 9)] c"

datatype ArgToken = Lit char | Escape nat QString

definition escapeAt :: "QString \<Rightarrow> (nat \<times> nat) option" where
  "escapeAt cs =
     (let k = (if cs \<noteq> [] \<and> hd cs = CHR ''L'' then 1 else 0) in
      case drop k cs of
        [] \<Rightarrow> None
      | d # es \<Rightarrow>
          (case digitValue d of
             None \<Rightarrow> None
           | Some n \<Rightarrow>
               (case es of
                  [] \<Rightarrow> Some (n, k + 1)
                | e # _ \<Rightarrow>
                    (case digitValue e of
                       None \<Rightarrow> Some (n, k + 1)
                     | Some m \<Rightarrow> Some (10 * n + m, k + 2)))))"

fun findArgEscapes :: "QString \<Rightarrow> ArgToken list" where
  "findArgEscapes [] = []"
| "findArgEscapes (c # cs) =
     (if c = CHR ''%'' then
        (case escapeAt cs of
           Some (n, len) \<Rightarrow> Escape n (c # take len cs) # findArgEscapes (drop len cs)
         | None \<Rightarrow> Lit c # findArgEscapes cs)
      else Lit c # findArgEscapes cs)"

fun min_escape :: "ArgToken list \<Rightarrow> nat option" where
  "min_escape [] = None"
| "min_escape (Lit c # ts) = min_escape ts"
| "min_escape (Escape n raw # ts) =
     (case min_escape ts of None \<Rightarrow> Some n | Some m \<Rightarrow> Some (min n m))"

fun replaceArgEscapes :: "nat \<Rightarrow> QString \<Rightarrow> ArgToken list \<Rightarrow> QString" where
  "replaceArgEscapes m a [] = []"
| "replaceArgEscapes m a (Lit c # ts) = c # replaceArgEscapes m a ts"
| "replaceArgEscapes m a (Escape n raw # ts) =
     (if n = m then a else raw) @ replaceArgEscapes m a ts"

definition QString_arg :: "QString \<Rightarrow> QString \<Rightarrow> QString" where
  "QString_arg s a =
     (case min_escape (findArgEscapes s) of
        None \<Rightarrow> s
      | Some m \<Rightarrow> replaceArgEscapes m a (findArgEscapes s))"

text \<open>The decimal text of an \<^verbatim>\<open>int\<close>, which \<^verbatim>\<open>arg(int)\<close> inserts.\<close>

definition digit_char :: "nat \<Rightarrow> char" where
  "digit_char d = ''0123456789'' ! (d mod 10)"

fun decimal :: "nat \<Rightarrow> QString" where
  "decimal n = (if n < 10 then [digit_char n] else decimal (n div 10) @ [digit_char n])"

declare decimal.simps [simp del]

definition QString_number :: "int \<Rightarrow> QString" where
  "QString_number i = (if i < 0 then CHR ''-'' # decimal (nat (- i)) else decimal (nat i))"

definition QString_arg_int :: "QString \<Rightarrow> int \<Rightarrow> QString" where
  "QString_arg_int s i = QString_arg s (QString_number i)"

subsection \<open>\<^verbatim>\<open>std::partial_sort_copy\<close> into two slots\<close>

text \<open>
  The destination \<^verbatim>\<open>first_two\<close> has two slots, both \<^verbatim>\<open>nullptr\<close> at first
  (\<open>None\<close>). The algorithm copies the first two elements, makes them a heap
  with the greater on top, replaces the top by every later element that
  compares less than it, and sorts the heap at the end (with two elements: swaps
  them). The steps are those of the GNU library; the source's comparison is not a
  strict weak order, so the outcome depends on them and on the order of the
  input.
\<close>

definition make_heap :: "('a \<Rightarrow> 'a \<Rightarrow> bool) \<Rightarrow> 'a \<Rightarrow> 'a \<Rightarrow> 'a \<times> 'a" where
  "make_heap cmp a b = (if cmp b a then (a, b) else (b, a))"

definition adjust_heap :: "('a \<Rightarrow> 'a \<Rightarrow> bool) \<Rightarrow> 'a \<Rightarrow> 'a \<times> 'a \<Rightarrow> 'a \<times> 'a" where
  "adjust_heap cmp x h =
     (if cmp x (fst h) then (if cmp (snd h) x then (x, snd h) else (snd h, x)) else h)"

fun partial_sort_copy :: "('a \<Rightarrow> 'a \<Rightarrow> bool) \<Rightarrow> 'a list \<Rightarrow> 'a option \<times> 'a option" where
  "partial_sort_copy cmp [] = (None, None)"
| "partial_sort_copy cmp [a] = (Some a, None)"
| "partial_sort_copy cmp (a # b # rest) =
     (let h = fold (adjust_heap cmp) rest (make_heap cmp a b)
      in (Some (snd h), Some (fst h)))"

section \<open>The room\<close>

text \<open>
  \<^verbatim>\<open>Room::Room\<close>. The constructor leaves \<^verbatim>\<open>highlightCount\<close> and
  \<^verbatim>\<open>notificationCount\<close> uninitialised: \<open>h0\<close> and \<open>n0\<close> are whatever they
  hold. \<open>nd\<close>, \<open>self\<close> and \<open>names\<close> are the build flag, the logged-in user and
  the users' names at that moment.
\<close>

definition Room_new :: "bool \<Rightarrow> User \<Rightarrow> (User \<Rightarrow> QString) \<Rightarrow> int \<Rightarrow> int \<Rightarrow> QString \<Rightarrow> Room" where
  "Room_new nd self names h0 n0 i =
     \<lparr>NDEBUG = nd, me = self, userName = names, nameChangedSlots = [], jobs = [],
      emitted = [], messageEvents = [], room_id = i, aliases = [], canonicalAlias = [],
      name = [], displayname = ''Empty room <'' @ i @ ''>'', topic = [],
      joinState = JoinState_Join, highlightCount = h0, notificationCount = n0,
      users = [], usersTyping = [], usersLeft = [], lastReadEvent = (\<lambda>u. None),
      prevBatch = [], gettingNewContent = False\<rparr>"

text \<open>A registry in which no user has a display name yet, for the examples.\<close>

definition unnamed :: "User \<Rightarrow> QString" where
  "unnamed u = []"

definition setJoinState :: "JoinState \<Rightarrow> Room \<Rightarrow> Room" where
  "setJoinState st r =
     (let oldState = joinState r in
      if st = oldState then r
      else emit (joinStateChanged oldState st) (r\<lparr>joinState := st\<rparr>))"

definition roomMembername :: "Room \<Rightarrow> User \<Rightarrow> QString" where
  "roomMembername r u =
     (let username = userName r u in
      if username = [] then u
      else
        let namesakes = values_of (users r) username in
        if length namesakes = 1 then username
        else if \<not> NDEBUG r \<and> u \<notin> set namesakes then username
        else username @ '' <'' @ u @ ''>'')"

text \<open>The comparison \<^verbatim>\<open>roomNameFromMemberNames\<close> sorts with.\<close>

definition me_last :: "Room \<Rightarrow> User \<Rightarrow> User \<Rightarrow> bool" where
  "me_last r u1 u2 = (u1 \<noteq> me r \<and> u1 < u2)"

text \<open>
  \<^verbatim>\<open>Room::Private::roomNameFromMemberNames\<close>. The three branches read
  \<^verbatim>\<open>first_two\<close> only when the list has two users or more, and then both slots
  are filled (\<open>partial_sort_copy_filled\<close> below); every other list falls
  through to the empty \<^verbatim>\<open>QString()\<close>.
\<close>

definition roomNameFromMemberNames :: "Room \<Rightarrow> User list \<Rightarrow> QString" where
  "roomNameFromMemberNames r userlist =
     (case partial_sort_copy (me_last r) userlist of
        (Some u0, Some u1) \<Rightarrow>
          if length userlist = 2 then roomMembername r u0
          else if length userlist = 3 then
            roomMembername r u0 @ '' and '' @ roomMembername r u1
          else if length userlist > 3 then
            QString_arg_int (QString_arg ''%1 and %2 others'' (roomMembername r u0))
              (int (length userlist) - 3)
          else []
      | _ \<Rightarrow> [])"

text \<open>
  \<^verbatim>\<open>Room::Private::updateDisplayname\<close>: the body of the \<^verbatim>\<open>do { } while (false)\<close>
  with its \<^verbatim>\<open>break\<close>s, then the comparison with the old name.
\<close>

definition updateDisplayname :: "Room \<Rightarrow> Room" where
  "updateDisplayname r =
     (let old_name = displayname r;
          r' =
            (if name r \<noteq> [] then
               (let r1 = r\<lparr>displayname := name r\<rparr> in
                if canonicalAlias r1 \<noteq> [] then
                  r1\<lparr>displayname := displayname r1 @ '' <'' @ canonicalAlias r1 @ ''>''\<rparr>
                else r1)
             else if canonicalAlias r \<noteq> [] then r\<lparr>displayname := canonicalAlias r\<rparr>
             else
               (let r3 = r\<lparr>displayname := roomNameFromMemberNames r (map snd (users r))\<rparr> in
                if displayname r3 \<noteq> [] then r3
                else
                  (let r4 = r3\<lparr>displayname := roomNameFromMemberNames r3 (usersLeft r3)\<rparr> in
                   if displayname r4 \<noteq> [] then r4
                   else r4\<lparr>displayname := ''Empty room ('' @ room_id r4 @ '')''\<rparr>)))
      in if old_name \<noteq> displayname r' then emit namesChanged r' else r')"

definition renameUser :: "User \<Rightarrow> QString \<Rightarrow> Room \<Rightarrow> Room" where
  "renameUser user oldName r =
     (if user \<in> set (values_of (users r) oldName) then
        updateDisplayname
          (r\<lparr>users := hash_insert (userName r user) user (hash_remove oldName user (users r))\<rparr>)
      else r)"

definition userRenamed :: "User \<Rightarrow> QString \<Rightarrow> Room \<Rightarrow> Room" where
  "userRenamed user oldName r = renameUser user oldName r"

text \<open>
  Modelled from the spec: \<^verbatim>\<open>User::processEvent\<close> (\<^verbatim>\<open>user.cpp\<close> is not among the
  sources). The user takes the display name of the member event; a change of
  name is announced by \<^verbatim>\<open>nameChanged(user, oldName)\<close>, which runs
  \<^verbatim>\<open>Room::userRenamed\<close> once for every connection the room has made to that
  user.
\<close>

definition User_processEvent :: "User \<Rightarrow> QString \<Rightarrow> Room \<Rightarrow> Room" where
  "User_processEvent u dn r =
     (if userName r u \<noteq> dn then
        (let oldName = userName r u;
             r1 = r\<lparr>userName := (userName r)(u := dn)\<rparr>
         in fold (\<lambda>s. userRenamed u oldName) (filter (\<lambda>s. s = u) (nameChangedSlots r1)) r1)
      else r)"

text \<open>
  Modelled from the spec: \<^verbatim>\<open>Event::findEarliestAfterMe\<close> (\<^verbatim>\<open>event.cpp\<close> is not
  among the sources). The insertion point is the first position whose element's
  key is not before the event's key.
\<close>

definition findEarliestAfterMe :: "Event \<Rightarrow> Event list \<Rightarrow> nat" where
  "findEarliestAfterMe ev evs = length (takeWhile (\<lambda>e. orderKey e < orderKey ev) evs)"

definition processMessageEvent :: "Event \<Rightarrow> Room \<Rightarrow> Room" where
  "processMessageEvent ev r =
     (let i = findEarliestAfterMe ev (messageEvents r) in
      r\<lparr>messageEvents := take i (messageEvents r) @ ev # drop i (messageEvents r)\<rparr>)"

text \<open>
  \<^verbatim>\<open>Room::processStateEvent\<close>; \<open>None\<close> is the null pointer. The tests on
  \<^verbatim>\<open>event->type()\<close> exclude one another, so the chain of \<^verbatim>\<open>if\<close>s is a case
  distinction.
\<close>

definition processStateEvent :: "Event option \<Rightarrow> Room \<Rightarrow> Room" where
  "processStateEvent event r =
     (case event of
        None \<Rightarrow> r
      | Some ev \<Rightarrow>
          (case content ev of
             RoomNameEvent n \<Rightarrow> updateDisplayname (r\<lparr>name := n\<rparr>)
           | RoomAliasesEvent as \<Rightarrow> updateDisplayname (r\<lparr>aliases := as\<rparr>)
           | RoomCanonicalAliasEvent a \<Rightarrow> updateDisplayname (r\<lparr>canonicalAlias := a\<rparr>)
           | RoomTopicEvent t \<Rightarrow> emit topicChanged (r\<lparr>topic := t\<rparr>)
           | RoomMemberEvent uid membership dn \<Rightarrow>
               (let u = uid;
                    r1 = User_processEvent u dn r
                in
                if membership = Join \<and> u \<notin> set (values_of (users r1) (userName r1 u)) then
                  updateDisplayname
                    (emit (userAdded u)
                      (r1\<lparr>users := hash_insert (userName r1 u) u (users r1),
                          nameChangedSlots := nameChangedSlots r1 @ [u]\<rparr>))
                else if membership = Leave then
                  (let r2 = (if u \<in> set (values_of (users r1) (userName r1 u))
                             then r1\<lparr>users := hash_remove (userName r1 u) u (users r1)\<rparr>
                             else r1);
                       r3 = (if u \<notin> set (usersLeft r2)
                             then r2\<lparr>usersLeft := usersLeft r2 @ [u]\<rparr>
                             else r2);
                       r4 = r3\<lparr>nameChangedSlots := filter (\<lambda>s. s \<noteq> u) (nameChangedSlots r3)\<rparr>
                   in updateDisplayname (emit (userRemoved u) r4))
                else r1)
           | _ \<Rightarrow> r))"

definition processEphemeralEvent :: "Event \<Rightarrow> Room \<Rightarrow> Room" where
  "processEphemeralEvent ev r =
     (case content ev of
        TypingEvent us \<Rightarrow> emit typingChanged (r\<lparr>usersTyping := us\<rparr>)
      | ReceiptEvent rs \<Rightarrow>
          fold (\<lambda>(eventId, receipts) r'.
                  fold (\<lambda>rc r''. r''\<lparr>lastReadEvent := (lastReadEvent r'')(userId rc \<mapsto> eventId)\<rparr>)
                    receipts r')
            rs r
      | _ \<Rightarrow> r)"

definition addMessage :: "Event \<Rightarrow> Room \<Rightarrow> Room" where
  "addMessage ev r = emit (newMessage ev) (processMessageEvent ev r)"

text \<open>The body of the timeline loop of \<^verbatim>\<open>Room::updateData\<close>.\<close>

definition timelineStep :: "Event \<Rightarrow> Room \<Rightarrow> Room" where
  "timelineStep timelineEvent r =
     processStateEvent (Some timelineEvent)
       (emit (newMessage timelineEvent) (processMessageEvent timelineEvent r))"

definition updateData :: "SyncRoomData \<Rightarrow> Room \<Rightarrow> Room" where
  "updateData d r =
     (let r1 = (if prevBatch r = [] then r\<lparr>prevBatch := timelinePrevBatch d\<rparr> else r);
          r2 = setJoinState (sync_joinState d) r1;
          r3 = fold (\<lambda>stateEvent. processStateEvent (Some stateEvent)) (state d) r2;
          r4 = fold timelineStep (timeline d) r3;
          r5 = fold processEphemeralEvent (ephemeral d) r4;
          r6 = (if sync_highlightCount d \<noteq> highlightCount r5
                then emit highlightCountChanged (r5\<lparr>highlightCount := sync_highlightCount d\<rparr>)
                else r5)
      in if sync_notificationCount d \<noteq> notificationCount r6
         then emit notificationCountChanged (r6\<lparr>notificationCount := sync_notificationCount d\<rparr>)
         else r6)"

text \<open>
  \<^verbatim>\<open>Room::getPreviousContent\<close>: \<^verbatim>\<open>connection->getMessages\<close> starts a job for
  the token, and the job's \<^verbatim>\<open>result\<close> is connected to \<^verbatim>\<open>gotMessages\<close>.
\<close>

definition getPreviousContent :: "Room \<Rightarrow> Room" where
  "getPreviousContent r =
     (if \<not> gettingNewContent r then
        (let r1 = r\<lparr>gettingNewContent := True\<rparr>
         in r1\<lparr>jobs := jobs r1 @ [prevBatch r1]\<rparr>)
      else r)"

definition gotMessages :: "RoomMessagesJob \<Rightarrow> Room \<Rightarrow> Room" where
  "gotMessages realJob r =
     (let r1 = (if job_error realJob \<noteq> 0 then r
                else (fold (\<lambda>event r'. emit (newMessage event) (processMessageEvent event r'))
                        (job_events realJob) r)\<lparr>prevBatch := job_end realJob\<rparr>)
      in r1\<lparr>gettingNewContent := False\<rparr>)"

text \<open>
  What can happen to a room: a sync batch, a request for older content, and a
  message job finishing with its result. A job finishes once, and only a job
  that was started can finish; its \<^verbatim>\<open>result\<close> signal then runs
  \<^verbatim>\<open>gotMessages\<close>.
\<close>

datatype Action = Sync SyncRoomData | FetchOlder | JobResult RoomMessagesJob

definition jobFinished :: "RoomMessagesJob \<Rightarrow> Room \<Rightarrow> Room" where
  "jobFinished j r = (if jobs r = [] then r else gotMessages j (r\<lparr>jobs := tl (jobs r)\<rparr>))"

fun step :: "Action \<Rightarrow> Room \<Rightarrow> Room" where
  "step (Sync d) r = updateData d r"
| "step FetchOlder r = getPreviousContent r"
| "step (JobResult j) r = jobFinished j r"

definition run :: "Action list \<Rightarrow> Room \<Rightarrow> Room" where
  "run acts r = fold step acts r"

section \<open>The display name as the specification words it\<close>

text \<open>
  The first non-empty candidate wins: the room name (with the canonical alias in
  angle brackets when there is one), the canonical alias, the label of the
  current members, the label of the users who left, and the fallback.
\<close>

definition first_nonempty :: "QString list \<Rightarrow> QString" where
  "first_nonempty cs = (case filter (\<lambda>s. s \<noteq> []) cs of [] \<Rightarrow> [] | s # _ \<Rightarrow> s)"

definition displayname_spec :: "Room \<Rightarrow> QString" where
  "displayname_spec r =
     first_nonempty
       [if name r = [] then []
        else if canonicalAlias r \<noteq> [] then name r @ '' <'' @ canonicalAlias r @ ''>''
        else name r,
        canonicalAlias r,
        roomNameFromMemberNames r (map snd (users r)),
        roomNameFromMemberNames r (usersLeft r),
        ''Empty room ('' @ room_id r @ '')'']"

section \<open>Invariants\<close>

text \<open>
  At most one message job is unfinished, and while one is, the room knows it is
  getting content.
\<close>

definition single_flight :: "Room \<Rightarrow> bool" where
  "single_flight r = (jobs r = [] \<or> (gettingNewContent r \<and> length (jobs r) = 1))"

text \<open>
  The registry holds no pair twice, no user is twice among the users who left,
  and every pair of the registry has the user's current name as its key and a
  user whose \<^verbatim>\<open>nameChanged\<close> is connected to the room.
\<close>

definition registry_inv :: "Room \<Rightarrow> bool" where
  "registry_inv r =
     (distinct (users r) \<and> distinct (usersLeft r) \<and>
      (\<forall>p \<in> set (users r). fst p = userName r (snd p) \<and> snd p \<in> set (nameChangedSlots r)))"

text \<open>
  Whether an event is a Join, or a Leave, of the user \<open>u\<close>, and whether in a
  sequence of events no Join of \<open>u\<close> comes after a Leave of \<open>u\<close>; \<open>left\<close>
  says that a Leave came before the sequence.
\<close>

definition is_Join :: "User \<Rightarrow> Event option \<Rightarrow> bool" where
  "is_Join u e =
     (case e of
        None \<Rightarrow> False
      | Some ev \<Rightarrow>
          (case content ev of
             RoomMemberEvent uid m dn \<Rightarrow> uid = u \<and> m = Join
           | _ \<Rightarrow> False))"

definition is_Leave :: "User \<Rightarrow> Event option \<Rightarrow> bool" where
  "is_Leave u e =
     (case e of
        None \<Rightarrow> False
      | Some ev \<Rightarrow>
          (case content ev of
             RoomMemberEvent uid m dn \<Rightarrow> uid = u \<and> m = Leave
           | _ \<Rightarrow> False))"

fun no_rejoin :: "User \<Rightarrow> bool \<Rightarrow> Event option list \<Rightarrow> bool" where
  "no_rejoin u left [] = True"
| "no_rejoin u left (e # es) =
     (if is_Leave u e then no_rejoin u True es
      else if is_Join u e then \<not> left \<and> no_rejoin u left es
      else no_rejoin u left es)"


section \<open>Frame and characterisation lemmas\<close>

lemma me_last_cong: "me r = me r' \<Longrightarrow> me_last r = me_last r'"
  by (simp add: fun_eq_iff me_last_def)

lemma roomMembername_cong:
  "userName r = userName r' \<Longrightarrow> users r = users r' \<Longrightarrow> NDEBUG r = NDEBUG r' \<Longrightarrow>
   roomMembername r u = roomMembername r' u"
  by (simp add: roomMembername_def Let_def)

lemma roomNameFromMemberNames_cong:
  assumes "me r = me r'" "userName r = userName r'" "users r = users r'" "NDEBUG r = NDEBUG r'"
  shows "roomNameFromMemberNames r l = roomNameFromMemberNames r' l"
proof -
  have m: "me_last r = me_last r'" using assms(1) by (rule me_last_cong)
  have n: "\<And>u. roomMembername r u = roomMembername r' u"
    using assms(2-4) by (rule roomMembername_cong)
  show ?thesis by (simp add: roomNameFromMemberNames_def m n split: prod.splits option.splits)
qed

lemma roomNameFromMemberNames_displayname [simp]:
  "roomNameFromMemberNames (r\<lparr>displayname := x\<rparr>) l = roomNameFromMemberNames r l"
  by (rule roomNameFromMemberNames_cong) simp_all

lemma updateDisplayname_eq:
  "updateDisplayname r =
     (if displayname r \<noteq> displayname_spec r
      then emit namesChanged (r\<lparr>displayname := displayname_spec r\<rparr>)
      else r)"
  by (simp add: updateDisplayname_def displayname_spec_def first_nonempty_def Let_def)

lemma fold_preserves:
  assumes "\<And>x s. g (f x s) = g s"
  shows "g (fold f xs s) = g s"
  by (induction xs arbitrary: s) (simp_all add: assms)

lemma emit_fields [simp]:
  "NDEBUG (emit s r) = NDEBUG r" "me (emit s r) = me r" "userName (emit s r) = userName r"
  "nameChangedSlots (emit s r) = nameChangedSlots r" "jobs (emit s r) = jobs r"
  "emitted (emit s r) = emitted r @ [s]" "messageEvents (emit s r) = messageEvents r"
  "room_id (emit s r) = room_id r" "aliases (emit s r) = aliases r"
  "canonicalAlias (emit s r) = canonicalAlias r" "name (emit s r) = name r"
  "displayname (emit s r) = displayname r" "topic (emit s r) = topic r"
  "joinState (emit s r) = joinState r" "users (emit s r) = users r"
  "usersLeft (emit s r) = usersLeft r" "prevBatch (emit s r) = prevBatch r"
  "gettingNewContent (emit s r) = gettingNewContent r"
  by (simp_all add: emit_def)

lemma updateDisplayname_fields [simp]:
  "NDEBUG (updateDisplayname r) = NDEBUG r" "me (updateDisplayname r) = me r"
  "userName (updateDisplayname r) = userName r"
  "nameChangedSlots (updateDisplayname r) = nameChangedSlots r"
  "jobs (updateDisplayname r) = jobs r"
  "messageEvents (updateDisplayname r) = messageEvents r"
  "room_id (updateDisplayname r) = room_id r" "aliases (updateDisplayname r) = aliases r"
  "canonicalAlias (updateDisplayname r) = canonicalAlias r"
  "name (updateDisplayname r) = name r" "topic (updateDisplayname r) = topic r"
  "joinState (updateDisplayname r) = joinState r" "users (updateDisplayname r) = users r"
  "usersLeft (updateDisplayname r) = usersLeft r"
  "prevBatch (updateDisplayname r) = prevBatch r"
  "gettingNewContent (updateDisplayname r) = gettingNewContent r"
  by (simp_all add: updateDisplayname_eq)

lemma updateDisplayname_displayname: "displayname (updateDisplayname r) = displayname_spec r"
  by (simp add: updateDisplayname_eq)

lemma updateDisplayname_emitted:
  "emitted (updateDisplayname r) =
     emitted r @ (if displayname r \<noteq> displayname_spec r then [namesChanged] else [])"
  by (simp add: updateDisplayname_eq)

lemma displayname_spec_cong:
  assumes "name r = name r'" "canonicalAlias r = canonicalAlias r'" "users r = users r'"
    "usersLeft r = usersLeft r'" "room_id r = room_id r'" "userName r = userName r'"
    "me r = me r'" "NDEBUG r = NDEBUG r'"
  shows "displayname_spec r = displayname_spec r'"
proof -
  have "\<And>l. roomNameFromMemberNames r l = roomNameFromMemberNames r' l"
    using assms(7,6,3,8) by (rule roomNameFromMemberNames_cong)
  then show ?thesis using assms by (simp add: displayname_spec_def)
qed

lemma displayname_spec_updateDisplayname [simp]:
  "displayname_spec (updateDisplayname r) = displayname_spec r"
  by (rule displayname_spec_cong) simp_all

lemma renameUser_fields [simp]:
  "NDEBUG (renameUser u old r) = NDEBUG r" "me (renameUser u old r) = me r"
  "userName (renameUser u old r) = userName r"
  "nameChangedSlots (renameUser u old r) = nameChangedSlots r"
  "jobs (renameUser u old r) = jobs r"
  "messageEvents (renameUser u old r) = messageEvents r"
  "room_id (renameUser u old r) = room_id r" "aliases (renameUser u old r) = aliases r"
  "canonicalAlias (renameUser u old r) = canonicalAlias r"
  "name (renameUser u old r) = name r" "topic (renameUser u old r) = topic r"
  "joinState (renameUser u old r) = joinState r"
  "usersLeft (renameUser u old r) = usersLeft r"
  "prevBatch (renameUser u old r) = prevBatch r"
  "gettingNewContent (renameUser u old r) = gettingNewContent r"
  by (simp_all add: renameUser_def)

lemma User_processEvent_fields [simp]:
  "NDEBUG (User_processEvent u dn r) = NDEBUG r" "me (User_processEvent u dn r) = me r"
  "nameChangedSlots (User_processEvent u dn r) = nameChangedSlots r"
  "jobs (User_processEvent u dn r) = jobs r"
  "messageEvents (User_processEvent u dn r) = messageEvents r"
  "room_id (User_processEvent u dn r) = room_id r"
  "aliases (User_processEvent u dn r) = aliases r"
  "canonicalAlias (User_processEvent u dn r) = canonicalAlias r"
  "name (User_processEvent u dn r) = name r" "topic (User_processEvent u dn r) = topic r"
  "joinState (User_processEvent u dn r) = joinState r"
  "usersLeft (User_processEvent u dn r) = usersLeft r"
  "prevBatch (User_processEvent u dn r) = prevBatch r"
  "gettingNewContent (User_processEvent u dn r) = gettingNewContent r"
  by (simp_all add: User_processEvent_def userRenamed_def Let_def fold_preserves)

lemma User_processEvent_userName [simp]:
  "userName (User_processEvent u dn r) = (userName r)(u := dn)"
  by (auto simp add: User_processEvent_def userRenamed_def Let_def fold_preserves)

lemma processStateEvent_fields [simp]:
  "NDEBUG (processStateEvent e r) = NDEBUG r" "me (processStateEvent e r) = me r"
  "jobs (processStateEvent e r) = jobs r"
  "messageEvents (processStateEvent e r) = messageEvents r"
  "room_id (processStateEvent e r) = room_id r"
  "joinState (processStateEvent e r) = joinState r"
  "prevBatch (processStateEvent e r) = prevBatch r"
  "gettingNewContent (processStateEvent e r) = gettingNewContent r"
  by (simp_all add: processStateEvent_def Let_def split: option.splits EventContent.splits)

lemma processMessageEvent_fields [simp]:
  "NDEBUG (processMessageEvent e r) = NDEBUG r" "me (processMessageEvent e r) = me r"
  "userName (processMessageEvent e r) = userName r"
  "nameChangedSlots (processMessageEvent e r) = nameChangedSlots r"
  "jobs (processMessageEvent e r) = jobs r" "emitted (processMessageEvent e r) = emitted r"
  "room_id (processMessageEvent e r) = room_id r"
  "aliases (processMessageEvent e r) = aliases r"
  "canonicalAlias (processMessageEvent e r) = canonicalAlias r"
  "name (processMessageEvent e r) = name r"
  "displayname (processMessageEvent e r) = displayname r"
  "topic (processMessageEvent e r) = topic r"
  "joinState (processMessageEvent e r) = joinState r"
  "users (processMessageEvent e r) = users r"
  "usersLeft (processMessageEvent e r) = usersLeft r"
  "prevBatch (processMessageEvent e r) = prevBatch r"
  "gettingNewContent (processMessageEvent e r) = gettingNewContent r"
  by (simp_all add: processMessageEvent_def Let_def)

lemma processEphemeralEvent_fields [simp]:
  "jobs (processEphemeralEvent e r) = jobs r"
  "gettingNewContent (processEphemeralEvent e r) = gettingNewContent r"
proof -
  have j: "\<And>rs x s. jobs (fold (\<lambda>rc r''. r''\<lparr>lastReadEvent := (lastReadEvent r'')(userId rc \<mapsto> x)\<rparr>) rs s) = jobs s"
    by (rule fold_preserves) simp
  have g: "\<And>rs x s. gettingNewContent (fold (\<lambda>rc r''. r''\<lparr>lastReadEvent := (lastReadEvent r'')(userId rc \<mapsto> x)\<rparr>) rs s) = gettingNewContent s"
    by (rule fold_preserves) simp
  show "jobs (processEphemeralEvent e r) = jobs r"
    by (simp add: processEphemeralEvent_def fold_preserves j split: EventContent.splits prod.splits)
  show "gettingNewContent (processEphemeralEvent e r) = gettingNewContent r"
    by (simp add: processEphemeralEvent_def fold_preserves g split: EventContent.splits prod.splits)
qed

lemma setJoinState_fields [simp]:
  "jobs (setJoinState st r) = jobs r"
  "gettingNewContent (setJoinState st r) = gettingNewContent r"
  by (simp_all add: setJoinState_def Let_def)

lemma timelineStep_fields [simp]:
  "jobs (timelineStep e r) = jobs r"
  "gettingNewContent (timelineStep e r) = gettingNewContent r"
  by (simp_all add: timelineStep_def)

lemma updateData_fields [simp]:
  "jobs (updateData d r) = jobs r"
  "gettingNewContent (updateData d r) = gettingNewContent r"
  by (simp_all add: updateData_def Let_def fold_preserves)

lemma roomNameFromMemberNames_Nil: "roomNameFromMemberNames r [] = []"
  by (simp add: roomNameFromMemberNames_def)

lemma single_flight_step: "single_flight r \<Longrightarrow> single_flight (step a r)"
  by (cases a)
     (auto simp add: single_flight_def getPreviousContent_def jobFinished_def gotMessages_def
        Let_def fold_preserves length_Suc_conv)

lemma single_flight_run: "single_flight r \<Longrightarrow> single_flight (run acts r)"
  unfolding run_def by (induction acts arbitrary: r) (simp_all add: single_flight_step)

lemma single_flight_Room_new: "single_flight (Room_new nd self names h0 n0 i)"
  by (simp add: single_flight_def Room_new_def)

section \<open>Backward pagination\<close>

text \<open>
  C5. When the message job finishes with an error, \<^verbatim>\<open>gotMessages\<close> changes
  nothing but the in-flight flag, which it clears: after a fetch that fails,
  \<open>prevBatch\<close> and the timeline are what they were before
  \<^verbatim>\<open>getPreviousContent\<close>. The flag is false after every completion, with or
  without an error.
\<close>

theorem gotMessages_error_clears_flag:
  "(job_error j \<noteq> 0 \<longrightarrow>
      gotMessages j r = r\<lparr>gettingNewContent := False\<rparr> \<and>
      prevBatch (gotMessages j (getPreviousContent r)) = prevBatch r \<and>
      messageEvents (gotMessages j (getPreviousContent r)) = messageEvents r) \<and>
   \<not> gettingNewContent (gotMessages j r)"
proof (intro conjI impI)
  assume e: "job_error j \<noteq> 0"
  then show "gotMessages j r = r\<lparr>gettingNewContent := False\<rparr>"
    by (simp add: gotMessages_def)
  from e have "gotMessages j (getPreviousContent r)
      = (getPreviousContent r)\<lparr>gettingNewContent := False\<rparr>"
    by (simp add: gotMessages_def)
  then show "prevBatch (gotMessages j (getPreviousContent r)) = prevBatch r"
    and "messageEvents (gotMessages j (getPreviousContent r)) = messageEvents r"
    by (simp_all add: getPreviousContent_def)
next
  show "\<not> gettingNewContent (gotMessages j r)"
    by (simp add: gotMessages_def Let_def)
qed

theorem gotMessages_error_clears_flag_witness:
  "job_error \<lparr>job_error = 1, errorString = ''timeout'', job_events = [], job_end = ''t1''\<rparr> \<noteq> 0 \<and>
   \<not> gettingNewContent
       (gotMessages \<lparr>job_error = 1, errorString = ''timeout'', job_events = [], job_end = ''t1''\<rparr>
          (getPreviousContent (Room_new False ''@me:s'' unnamed 0 0 ''!r:s''))) \<and>
   prevBatch
       (gotMessages \<lparr>job_error = 1, errorString = ''timeout'', job_events = [], job_end = ''t1''\<rparr>
          (getPreviousContent (Room_new False ''@me:s'' unnamed 0 0 ''!r:s''))) = []"
  using gotMessages_error_clears_flag
    [of "\<lparr>job_error = 1, errorString = ''timeout'', job_events = [], job_end = ''t1''\<rparr>"
        "Room_new False ''@me:s'' unnamed 0 0 ''!r:s''"]
    gotMessages_error_clears_flag
    [of "\<lparr>job_error = 1, errorString = ''timeout'', job_events = [], job_end = ''t1''\<rparr>"
        "getPreviousContent (Room_new False ''@me:s'' unnamed 0 0 ''!r:s'')"]
  by (simp add: Room_new_def)

text \<open>
  C6. \<^verbatim>\<open>getPreviousContent\<close> on a room that is already getting content returns
  the room as it is: no job is started and no field changes. Whatever sync
  batches, requests and job results a new room goes through, at most one message
  job is unfinished at any time.
\<close>

theorem getPreviousContent_single_flight:
  "(gettingNewContent r \<longrightarrow> getPreviousContent r = r) \<and>
   length (jobs (run acts (Room_new nd self names h0 n0 i))) \<le> 1"
proof
  show "gettingNewContent r \<longrightarrow> getPreviousContent r = r"
    by (simp add: getPreviousContent_def)
  have "single_flight (run acts (Room_new nd self names h0 n0 i))"
    by (rule single_flight_run) (rule single_flight_Room_new)
  then show "length (jobs (run acts (Room_new nd self names h0 n0 i))) \<le> 1"
    by (auto simp add: single_flight_def)
qed

theorem getPreviousContent_single_flight_witness:
  "gettingNewContent (getPreviousContent (Room_new False ''@me:s'' unnamed 0 0 ''!r:s'')) \<and>
   getPreviousContent (getPreviousContent (Room_new False ''@me:s'' unnamed 0 0 ''!r:s''))
     = getPreviousContent (Room_new False ''@me:s'' unnamed 0 0 ''!r:s'') \<and>
   jobs (run [FetchOlder, FetchOlder] (Room_new False ''@me:s'' unnamed 0 0 ''!r:s'')) = [[]]"
  using getPreviousContent_single_flight
    [of "getPreviousContent (Room_new False ''@me:s'' unnamed 0 0 ''!r:s'')"
        "[FetchOlder, FetchOlder]" False "''@me:s''" unnamed 0 0 "''!r:s''"]
  by (simp add: getPreviousContent_def Room_new_def run_def)

section \<open>The display name of a new room\<close>

text \<open>
  C9. The constructor sets the display name to \<^verbatim>\<open>Empty room <id>\<close>, with angle
  brackets; the fallback of \<^verbatim>\<open>updateDisplayname\<close> is \<^verbatim>\<open>Empty room (id)\<close>, with
  parentheses. So in a room that still has its constructor's display name and
  has no name, no canonical alias, no member and no user who left, the first
  recomputation changes the display name and emits \<^verbatim>\<open>namesChanged\<close>.
\<close>

theorem constructor_placeholder_differs:
  "displayname (Room_new nd self names h0 n0 i) = ''Empty room <'' @ i @ ''>'' \<and>
   (name r = [] \<and> canonicalAlias r = [] \<and> users r = [] \<and> usersLeft r = [] \<and>
    displayname r = ''Empty room <'' @ room_id r @ ''>'' \<longrightarrow>
      displayname (updateDisplayname r) = ''Empty room ('' @ room_id r @ '')'' \<and>
      displayname (updateDisplayname r) \<noteq> displayname r \<and>
      emitted (updateDisplayname r) = emitted r @ [namesChanged])"
  by (simp add: updateDisplayname_eq displayname_spec_def first_nonempty_def
        roomNameFromMemberNames_Nil Room_new_def)

theorem constructor_placeholder_differs_witness:
  "displayname (updateDisplayname (Room_new False ''@me:s'' unnamed 0 0 ''!r:s''))
     = ''Empty room (!r:s)'' \<and>
   emitted (updateDisplayname (Room_new False ''@me:s'' unnamed 0 0 ''!r:s'')) = [namesChanged]"
  using constructor_placeholder_differs
    [of False "''@me:s''" unnamed 0 0 "''!r:s''"
        "Room_new False ''@me:s'' unnamed 0 0 ''!r:s''"]
  by (simp add: Room_new_def)

section \<open>The multi-hash, renaming and the Leave branch\<close>

lemma in_values_of: "v \<in> set (values_of h k) \<longleftrightarrow> (k, v) \<in> set h"
  by (force simp add: values_of_def)

lemma set_hash_remove: "set (hash_remove k v h) = set h - {(k, v)}"
  by (auto simp add: hash_remove_def)

lemma hash_remove_absent: "v \<notin> set (values_of h k) \<Longrightarrow> hash_remove k v h = h"
  by (auto simp add: in_values_of hash_remove_def filter_id_conv)

lemma hash_remove_idem: "hash_remove k v (hash_remove k v h) = hash_remove k v h"
  by (simp add: hash_remove_def)

lemma userRenamed_eq: "userRenamed u old = renameUser u old"
  by (simp add: fun_eq_iff userRenamed_def)

lemma renameUser_again:
  assumes "userName r u \<noteq> old"
  shows "renameUser u old (renameUser u old r) = renameUser u old r"
proof (cases "u \<in> set (values_of (users r) old)")
  case True
  have "u \<notin> set (values_of (users (renameUser u old r)) old)"
    using assms True
    by (simp add: renameUser_def hash_insert_def in_values_of set_hash_remove)
  then show ?thesis by (simp add: renameUser_def [of u old "renameUser u old r"])
next
  case False
  then show ?thesis by (simp add: renameUser_def)
qed

lemma fold_renameUser:
  assumes "userName r u \<noteq> old"
  shows "fold (\<lambda>s. renameUser u old) xs r = (if xs = [] then r else renameUser u old r)"
  using assms
proof (induction xs arbitrary: r)
  case Nil
  then show ?case by simp
next
  case (Cons x xs)
  have "userName (renameUser u old r) u \<noteq> old" using Cons.prems by simp
  then have "fold (\<lambda>s. renameUser u old) xs (renameUser u old r) =
      (if xs = [] then renameUser u old r else renameUser u old (renameUser u old r))"
    by (rule Cons.IH)
  then show ?case using Cons.prems by (simp add: renameUser_again)
qed

lemma User_processEvent_eq:
  "User_processEvent u dn r =
     (if userName r u = dn then r
      else if u \<in> set (nameChangedSlots r)
        then renameUser u (userName r u) (r\<lparr>userName := (userName r)(u := dn)\<rparr>)
        else r\<lparr>userName := (userName r)(u := dn)\<rparr>)"
proof -
  have "filter (\<lambda>s. s = u) (nameChangedSlots r) = [] \<longleftrightarrow> u \<notin> set (nameChangedSlots r)"
    by (auto simp add: filter_empty_conv)
  then show ?thesis
    by (simp add: User_processEvent_def userRenamed_eq Let_def fold_renameUser)
qed

lemma User_processEvent_same: "userName r u = dn \<Longrightarrow> User_processEvent u dn r = r"
  by (simp add: User_processEvent_def)

lemma User_processEvent_users_absent:
  "u \<notin> snd ` set (users r) \<Longrightarrow> users (User_processEvent u dn r) = users r"
  by (auto simp add: User_processEvent_eq renameUser_def in_values_of image_iff)

lemma User_processEvent_emitted_absent:
  "u \<notin> snd ` set (users r) \<Longrightarrow> emitted (User_processEvent u dn r) = emitted r"
  by (auto simp add: User_processEvent_eq renameUser_def in_values_of image_iff)

lemma User_processEvent_displayname_absent:
  "u \<notin> snd ` set (users r) \<Longrightarrow> displayname (User_processEvent u dn r) = displayname r"
  by (auto simp add: User_processEvent_eq renameUser_def in_values_of image_iff)

lemma processStateEvent_Leave:
  "users (processStateEvent (Some (Event k (RoomMemberEvent u Leave dn))) r)
     = hash_remove dn u (users (User_processEvent u dn r))"
  "usersLeft (processStateEvent (Some (Event k (RoomMemberEvent u Leave dn))) r)
     = (if u \<in> set (usersLeft r) then usersLeft r else usersLeft r @ [u])"
  "userName (processStateEvent (Some (Event k (RoomMemberEvent u Leave dn))) r)
     = (userName r)(u := dn)"
  "nameChangedSlots (processStateEvent (Some (Event k (RoomMemberEvent u Leave dn))) r)
     = filter (\<lambda>s. s \<noteq> u) (nameChangedSlots r)"
  by (simp_all add: processStateEvent_def Let_def hash_remove_absent)

lemma processStateEvent_displayname_Leave:
  "displayname (processStateEvent (Some (Event k (RoomMemberEvent u Leave dn))) r)
     = displayname_spec (processStateEvent (Some (Event k (RoomMemberEvent u Leave dn))) r)"
proof -
  have "\<And>x. displayname (updateDisplayname x) = displayname_spec (updateDisplayname x)"
    by (simp add: updateDisplayname_displayname)
  then show ?thesis by (simp add: processStateEvent_def Let_def)
qed

lemma processStateEvent_emitted_Leave:
  "emitted (processStateEvent (Some (Event k (RoomMemberEvent u Leave dn))) r)
     = emitted (User_processEvent u dn r) @ userRemoved u #
         (if displayname (processStateEvent (Some (Event k (RoomMemberEvent u Leave dn))) r)
               \<noteq> displayname (User_processEvent u dn r)
          then [namesChanged] else [])"
  by (simp add: processStateEvent_def Let_def updateDisplayname_emitted
        updateDisplayname_displayname emit_def)

section \<open>Membership\<close>

text \<open>
  C8. Processing the same \<^verbatim>\<open>RoomMember\<close> Leave event a second time leaves the
  membership registry and the list of users who left as the first processing
  made them.
\<close>

theorem Leave_twice_idempotent:
  "users (processStateEvent (Some (Event k (RoomMemberEvent u Leave dn)))
            (processStateEvent (Some (Event k (RoomMemberEvent u Leave dn))) r))
     = users (processStateEvent (Some (Event k (RoomMemberEvent u Leave dn))) r) \<and>
   usersLeft (processStateEvent (Some (Event k (RoomMemberEvent u Leave dn)))
            (processStateEvent (Some (Event k (RoomMemberEvent u Leave dn))) r))
     = usersLeft (processStateEvent (Some (Event k (RoomMemberEvent u Leave dn))) r)"
proof -
  let ?ev = "Some (Event k (RoomMemberEvent u Leave dn))"
  have n: "userName (processStateEvent ?ev r) u = dn"
    by (simp add: processStateEvent_Leave)
  have s: "User_processEvent u dn (processStateEvent ?ev r) = processStateEvent ?ev r"
    using n by (rule User_processEvent_same)
  have "users (processStateEvent ?ev (processStateEvent ?ev r))
      = hash_remove dn u (users (processStateEvent ?ev r))"
    by (simp add: processStateEvent_Leave(1) [of k u dn "processStateEvent ?ev r"] s)
  then have u2: "users (processStateEvent ?ev (processStateEvent ?ev r))
      = users (processStateEvent ?ev r)"
    by (simp add: processStateEvent_Leave(1) [of k u dn r] hash_remove_idem)
  have l2: "usersLeft (processStateEvent ?ev (processStateEvent ?ev r))
      = usersLeft (processStateEvent ?ev r)"
    by (simp add: processStateEvent_Leave(2))
  show ?thesis using u2 l2 by simp
qed

theorem Leave_twice_idempotent_witness:
  "usersLeft (processStateEvent (Some (Event 2 (RoomMemberEvent ''@x:s'' Leave ''X'')))
            (processStateEvent (Some (Event 2 (RoomMemberEvent ''@x:s'' Leave ''X'')))
              (processStateEvent (Some (Event 1 (RoomMemberEvent ''@x:s'' Join ''X'')))
                (Room_new False ''@me:s'' unnamed 0 0 ''!r:s''))))
     = usersLeft (processStateEvent (Some (Event 2 (RoomMemberEvent ''@x:s'' Leave ''X'')))
              (processStateEvent (Some (Event 1 (RoomMemberEvent ''@x:s'' Join ''X'')))
                (Room_new False ''@me:s'' unnamed 0 0 ''!r:s''))) \<and>
   usersLeft (processStateEvent (Some (Event 2 (RoomMemberEvent ''@x:s'' Leave ''X'')))
              (processStateEvent (Some (Event 1 (RoomMemberEvent ''@x:s'' Join ''X'')))
                (Room_new False ''@me:s'' unnamed 0 0 ''!r:s''))) = [''@x:s'']"
proof (rule conjI)
  show "usersLeft (processStateEvent (Some (Event 2 (RoomMemberEvent ''@x:s'' Leave ''X'')))
            (processStateEvent (Some (Event 2 (RoomMemberEvent ''@x:s'' Leave ''X'')))
              (processStateEvent (Some (Event 1 (RoomMemberEvent ''@x:s'' Join ''X'')))
                (Room_new False ''@me:s'' unnamed 0 0 ''!r:s''))))
     = usersLeft (processStateEvent (Some (Event 2 (RoomMemberEvent ''@x:s'' Leave ''X'')))
              (processStateEvent (Some (Event 1 (RoomMemberEvent ''@x:s'' Join ''X'')))
                (Room_new False ''@me:s'' unnamed 0 0 ''!r:s'')))"
    by (rule conjunct2 [OF Leave_twice_idempotent])
  show "usersLeft (processStateEvent (Some (Event 2 (RoomMemberEvent ''@x:s'' Leave ''X'')))
              (processStateEvent (Some (Event 1 (RoomMemberEvent ''@x:s'' Join ''X'')))
                (Room_new False ''@me:s'' unnamed 0 0 ''!r:s''))) = [''@x:s'']"
    by code_simp
qed

text \<open>
  C10. A Leave event for a user who is not in the membership registry is not
  without effect. The registry stays as it is, but the user is appended to the
  list of users who left unless already there, \<^verbatim>\<open>userRemoved\<close> is emitted, and
  the display name is recomputed (with \<^verbatim>\<open>namesChanged\<close> when it changes).
\<close>

theorem Leave_of_absent_user:
  "u \<notin> snd ` set (users r) \<longrightarrow>
     users (processStateEvent (Some (Event k (RoomMemberEvent u Leave dn))) r) = users r \<and>
     usersLeft (processStateEvent (Some (Event k (RoomMemberEvent u Leave dn))) r)
       = (if u \<in> set (usersLeft r) then usersLeft r else usersLeft r @ [u]) \<and>
     emitted (processStateEvent (Some (Event k (RoomMemberEvent u Leave dn))) r)
       = emitted r @ userRemoved u #
           (if displayname (processStateEvent (Some (Event k (RoomMemberEvent u Leave dn))) r)
                 \<noteq> displayname r
            then [namesChanged] else []) \<and>
     displayname (processStateEvent (Some (Event k (RoomMemberEvent u Leave dn))) r)
       = displayname_spec (processStateEvent (Some (Event k (RoomMemberEvent u Leave dn))) r)"
proof
  let ?ev = "Some (Event k (RoomMemberEvent u Leave dn))"
  assume absent: "u \<notin> snd ` set (users r)"
  then have a: "u \<notin> set (values_of (users r) dn)"
    by (force simp add: in_values_of)
  have 1: "users (processStateEvent ?ev r) = users r"
    using absent a
    by (simp add: processStateEvent_Leave User_processEvent_users_absent hash_remove_absent)
  have 2: "usersLeft (processStateEvent ?ev r)
          = (if u \<in> set (usersLeft r) then usersLeft r else usersLeft r @ [u])"
    by (simp add: processStateEvent_Leave)
  have 3: "emitted (processStateEvent ?ev r)
          = emitted r @ userRemoved u #
              (if displayname (processStateEvent ?ev r) \<noteq> displayname r
               then [namesChanged] else [])"
    unfolding processStateEvent_emitted_Leave [of k u dn r]
      User_processEvent_emitted_absent [OF absent]
      User_processEvent_displayname_absent [OF absent] ..
  show "users (processStateEvent ?ev r) = users r \<and>
     usersLeft (processStateEvent ?ev r)
       = (if u \<in> set (usersLeft r) then usersLeft r else usersLeft r @ [u]) \<and>
     emitted (processStateEvent ?ev r)
       = emitted r @ userRemoved u #
           (if displayname (processStateEvent ?ev r) \<noteq> displayname r
            then [namesChanged] else []) \<and>
     displayname (processStateEvent ?ev r) = displayname_spec (processStateEvent ?ev r)"
    using 1 2 3 processStateEvent_displayname_Leave [of k u dn r] by simp
qed

theorem Leave_of_absent_user_witness:
  "''@x:s'' \<notin> snd ` set (users (Room_new False ''@me:s'' unnamed 0 0 ''!r:s'')) \<and>
   usersLeft (processStateEvent (Some (Event 1 (RoomMemberEvent ''@x:s'' Leave ''X'')))
     (Room_new False ''@me:s'' unnamed 0 0 ''!r:s'')) = [''@x:s''] \<and>
   userRemoved ''@x:s'' \<in> set (emitted
     (processStateEvent (Some (Event 1 (RoomMemberEvent ''@x:s'' Leave ''X'')))
       (Room_new False ''@me:s'' unnamed 0 0 ''!r:s'')))"
proof -
  have h: "''@x:s'' \<notin> snd ` set (users (Room_new False ''@me:s'' unnamed 0 0 ''!r:s''))"
    by (simp add: Room_new_def)
  have e: "usersLeft (Room_new False ''@me:s'' unnamed 0 0 ''!r:s'') = []"
    by (simp add: Room_new_def)
  show ?thesis
    using h e Leave_of_absent_user
      [of "''@x:s''" "Room_new False ''@me:s'' unnamed 0 0 ''!r:s''" 1 "''X''"]
    by simp
qed

section \<open>The loop of a finished job\<close>

lemma fold_addMessage_messageEvents:
  "messageEvents r1 = messageEvents r2 \<Longrightarrow>
   messageEvents (fold (\<lambda>event r'. emit (newMessage event) (processMessageEvent event r')) es r1)
     = messageEvents (fold processMessageEvent es r2)"
proof (induction es arbitrary: r1 r2)
  case Nil
  then show ?case by simp
next
  case (Cons e es)
  have "messageEvents (emit (newMessage e) (processMessageEvent e r1))
      = messageEvents (processMessageEvent e r2)"
    using Cons.prems by (simp add: processMessageEvent_def Let_def)
  then show ?case by (simp add: Cons.IH)
qed

lemma fold_addMessage_emitted:
  "emitted (fold (\<lambda>event r'. emit (newMessage event) (processMessageEvent event r')) es r)
     = emitted r @ map newMessage es"
  by (induction es arbitrary: r) simp_all

section \<open>The display name: precedence\<close>

text \<open>
  C4. \<^verbatim>\<open>updateDisplayname\<close> sets the display name to the first non-empty
  candidate in this order: the room name, followed by the canonical alias in
  angle brackets when that is non-empty; the canonical alias alone; the label of
  the current members; the label of the users who left; and
  \<^verbatim>\<open>Empty room (id)\<close>. A \<^verbatim>\<open>RoomName\<close> event with the name \<^verbatim>\<open>Team\<close>, in a
  room whose canonical alias is \<^verbatim>\<open>#team:s\<close>, makes the display name
  \<^verbatim>\<open>Team <#team:s>\<close>.
\<close>

theorem updateDisplayname_precedence:
  "displayname (updateDisplayname r) = displayname_spec r \<and>
   displayname (processStateEvent (Some (Event k (RoomNameEvent ''Team'')))
                  (r\<lparr>canonicalAlias := ''#team:s''\<rparr>)) = ''Team <#team:s>''"
  by (simp add: updateDisplayname_displayname processStateEvent_def displayname_spec_def
        first_nonempty_def)

theorem updateDisplayname_precedence_witness:
  "displayname (updateDisplayname
      ((Room_new False ''@me:s'' unnamed 0 0 ''!r:s'')\<lparr>canonicalAlias := ''#team:s''\<rparr>))
     = ''#team:s'' \<and>
   displayname (processStateEvent (Some (Event 7 (RoomNameEvent ''Team'')))
      ((Room_new False ''@me:s'' unnamed 0 0 ''!r:s'')\<lparr>canonicalAlias := ''#team:s''\<rparr>))
     = ''Team <#team:s>''"
  using updateDisplayname_precedence
    [of "(Room_new False ''@me:s'' unnamed 0 0 ''!r:s'')\<lparr>canonicalAlias := ''#team:s''\<rparr>" 7]
  by (simp add: displayname_spec_def first_nonempty_def Room_new_def)

section \<open>Backward pagination: the successful fetch\<close>

text \<open>
  C2, as the code has it. When the message job finishes without an error, every
  returned event is, in the order received, inserted into the timeline and
  announced by \<^verbatim>\<open>newMessage\<close>; then \<open>prevBatch\<close> becomes the job's
  \<^verbatim>\<open>end()\<close> and the in-flight flag is cleared. The events are not run through
  \<^verbatim>\<open>processStateEvent\<close>: the room's name, aliases, topic, members, users who
  left and display name stay as they were.
\<close>

theorem gotMessages_success:
  "job_error j = 0 \<longrightarrow>
     messageEvents (gotMessages j r) = messageEvents (fold processMessageEvent (job_events j) r) \<and>
     emitted (gotMessages j r) = emitted r @ map newMessage (job_events j) \<and>
     name (gotMessages j r) = name r \<and> aliases (gotMessages j r) = aliases r \<and>
     canonicalAlias (gotMessages j r) = canonicalAlias r \<and> topic (gotMessages j r) = topic r \<and>
     users (gotMessages j r) = users r \<and> usersLeft (gotMessages j r) = usersLeft r \<and>
     userName (gotMessages j r) = userName r \<and> displayname (gotMessages j r) = displayname r \<and>
     prevBatch (gotMessages j r) = job_end j \<and> \<not> gettingNewContent (gotMessages j r)"
  by (simp add: gotMessages_def Let_def fold_addMessage_emitted fold_preserves
        fold_addMessage_messageEvents)

theorem gotMessages_success_witness:
  "job_error \<lparr>job_error = 0, errorString = [],
      job_events = [Event 5 (RoomMessageEvent ''b''), Event 3 (RoomMessageEvent ''a'')],
      job_end = ''t1''\<rparr> = 0 \<and>
   messageEvents (gotMessages \<lparr>job_error = 0, errorString = [],
      job_events = [Event 5 (RoomMessageEvent ''b''), Event 3 (RoomMessageEvent ''a'')],
      job_end = ''t1''\<rparr> (getPreviousContent (Room_new False ''@me:s'' unnamed 0 0 ''!r:s'')))
     = [Event 3 (RoomMessageEvent ''a''), Event 5 (RoomMessageEvent ''b'')] \<and>
   emitted (gotMessages \<lparr>job_error = 0, errorString = [],
      job_events = [Event 5 (RoomMessageEvent ''b''), Event 3 (RoomMessageEvent ''a'')],
      job_end = ''t1''\<rparr> (getPreviousContent (Room_new False ''@me:s'' unnamed 0 0 ''!r:s'')))
     = [newMessage (Event 5 (RoomMessageEvent ''b'')), newMessage (Event 3 (RoomMessageEvent ''a''))] \<and>
   prevBatch (gotMessages \<lparr>job_error = 0, errorString = [],
      job_events = [Event 5 (RoomMessageEvent ''b''), Event 3 (RoomMessageEvent ''a'')],
      job_end = ''t1''\<rparr> (getPreviousContent (Room_new False ''@me:s'' unnamed 0 0 ''!r:s'')))
     = ''t1''"
  using gotMessages_success
    [of "\<lparr>job_error = 0, errorString = [],
      job_events = [Event 5 (RoomMessageEvent ''b''), Event 3 (RoomMessageEvent ''a'')],
      job_end = ''t1''\<rparr>" "getPreviousContent (Room_new False ''@me:s'' unnamed 0 0 ''!r:s'')"]
  by (simp add: getPreviousContent_def Room_new_def processMessageEvent_def findEarliestAfterMe_def)

text \<open>
  C2 as stated fails: a returned \<^verbatim>\<open>RoomName\<close> event does not reach the state
  handler. \<^verbatim>\<open>gotMessages\<close> leaves the room name empty where the timeline loop
  of \<^verbatim>\<open>updateData\<close> sets it.
\<close>

theorem gotMessages_state_dispatch_counterexample:
  "job_error \<lparr>job_error = 0, errorString = [],
      job_events = [Event 5 (RoomNameEvent ''Team'')], job_end = ''t1''\<rparr> = 0 \<and>
   name (gotMessages \<lparr>job_error = 0, errorString = [],
      job_events = [Event 5 (RoomNameEvent ''Team'')], job_end = ''t1''\<rparr>
      (getPreviousContent (Room_new False ''@me:s'' unnamed 0 0 ''!r:s''))) = [] \<and>
   name (fold timelineStep [Event 5 (RoomNameEvent ''Team'')]
      (getPreviousContent (Room_new False ''@me:s'' unnamed 0 0 ''!r:s''))) = ''Team''"
  by (simp add: gotMessages_def Let_def getPreviousContent_def Room_new_def timelineStep_def
        processStateEvent_def)

section \<open>The registry invariant is kept by every state event\<close>

lemma distinct_hash_remove: "distinct h \<Longrightarrow> distinct (hash_remove k v h)"
  by (simp add: hash_remove_def)

lemma users_renameUser:
  "users (renameUser u old r) =
     (if (old, u) \<in> set (users r)
      then (userName r u, u) # hash_remove old u (users r) else users r)"
  by (simp add: renameUser_def in_values_of hash_insert_def)

lemma registry_invI:
  assumes "distinct (users r)" "distinct (usersLeft r)"
    "\<And>n v. (n, v) \<in> set (users r) \<Longrightarrow> n = userName r v \<and> v \<in> set (nameChangedSlots r)"
  shows "registry_inv r"
  unfolding registry_inv_def using assms by force

lemma registry_invD:
  assumes "registry_inv r"
  shows "distinct (users r)" "distinct (usersLeft r)"
    "\<And>n v. (n, v) \<in> set (users r) \<Longrightarrow> n = userName r v"
    "\<And>n v. (n, v) \<in> set (users r) \<Longrightarrow> v \<in> set (nameChangedSlots r)"
  using assms unfolding registry_inv_def by force+

lemma registry_inv_rename:
  assumes "registry_inv r" "userName r u \<noteq> dn" "u \<in> set (nameChangedSlots r)"
  shows "registry_inv (renameUser u (userName r u) (r\<lparr>userName := (userName r)(u := dn)\<rparr>))"
proof -
  let ?old = "userName r u"
  let ?r' = "r\<lparr>userName := (userName r)(u := dn)\<rparr>"
  note d = registry_invD [OF assms(1)]
  have other: "v \<noteq> u" if "(n, v) \<in> set (users r)" "(n, v) \<noteq> (?old, u)" for n v
    using that d(3) [of n v] by auto
  show ?thesis
  proof (cases "(?old, u) \<in> set (users r)")
    case True
    have us: "users (renameUser u ?old ?r') = (dn, u) # hash_remove ?old u (users r)"
      using True by (simp add: users_renameUser)
    have new: "(dn, u) \<notin> set (users r)" using d(3) [of dn u] assms(2) by auto
    show ?thesis
    proof (rule registry_invI)
      show "distinct (users (renameUser u ?old ?r'))"
        using new d(1) by (simp add: us set_hash_remove distinct_hash_remove)
      show "distinct (usersLeft (renameUser u ?old ?r'))" using d(2) by simp
      fix n v assume "(n, v) \<in> set (users (renameUser u ?old ?r'))"
      then consider "n = dn" "v = u" | "(n, v) \<in> set (users r)" "(n, v) \<noteq> (?old, u)"
        by (auto simp add: us set_hash_remove)
      then show "n = userName (renameUser u ?old ?r') v \<and>
                 v \<in> set (nameChangedSlots (renameUser u ?old ?r'))"
      proof cases
        case 1
        then show ?thesis using assms(3) by simp
      next
        case 2
        then show ?thesis using other [OF 2] d(3) [OF 2(1)] d(4) [OF 2(1)] by simp
      qed
    qed
  next
    case False
    then have none: "(n, u) \<notin> set (users r)" for n using d(3) [of n u] by auto
    have us: "users (renameUser u ?old ?r') = users r"
      using False by (simp add: users_renameUser)
    show ?thesis
    proof (rule registry_invI)
      show "distinct (users (renameUser u ?old ?r'))" using d(1) by (simp add: us)
      show "distinct (usersLeft (renameUser u ?old ?r'))" using d(2) by simp
      fix n v assume a: "(n, v) \<in> set (users (renameUser u ?old ?r'))"
      then have m: "(n, v) \<in> set (users r)" by (simp add: us)
      then have "v \<noteq> u" using none by auto
      then show "n = userName (renameUser u ?old ?r') v \<and>
                 v \<in> set (nameChangedSlots (renameUser u ?old ?r'))"
        using d(3) [OF m] d(4) [OF m] by simp
    qed
  qed
qed

lemma registry_inv_User_processEvent:
  assumes "registry_inv r"
  shows "registry_inv (User_processEvent u dn r)"
proof (cases "userName r u = dn")
  case True
  then show ?thesis using assms by (simp add: User_processEvent_eq)
next
  case False
  show ?thesis
  proof (cases "u \<in> set (nameChangedSlots r)")
    case True
    then show ?thesis
      using False registry_inv_rename [OF assms False True] by (simp add: User_processEvent_eq)
  next
    case nosub: False
    note d = registry_invD [OF assms]
    have eq: "User_processEvent u dn r = r\<lparr>userName := (userName r)(u := dn)\<rparr>"
      using False nosub by (simp add: User_processEvent_eq)
    show ?thesis unfolding eq
    proof (rule registry_invI)
      show "distinct (users (r\<lparr>userName := (userName r)(u := dn)\<rparr>))" using d(1) by simp
      show "distinct (usersLeft (r\<lparr>userName := (userName r)(u := dn)\<rparr>))" using d(2) by simp
      fix n v assume "(n, v) \<in> set (users (r\<lparr>userName := (userName r)(u := dn)\<rparr>))"
      then have m: "(n, v) \<in> set (users r)" by simp
      then have "v \<noteq> u" using d(4) [OF m] nosub by auto
      then show "n = userName (r\<lparr>userName := (userName r)(u := dn)\<rparr>) v \<and>
                 v \<in> set (nameChangedSlots (r\<lparr>userName := (userName r)(u := dn)\<rparr>))"
        using d(3) [OF m] d(4) [OF m] by simp
    qed
  qed
qed

lemma registry_inv_updateDisplayname [simp]:
  "registry_inv (updateDisplayname r) = registry_inv r"
  by (simp add: registry_inv_def)

lemma registry_inv_emit [simp]: "registry_inv (emit s r) = registry_inv r"
  by (simp add: registry_inv_def)

lemma registry_inv_Join:
  assumes "registry_inv r" "u \<notin> set (values_of (users r) (userName r u))"
  shows "registry_inv (r\<lparr>users := hash_insert (userName r u) u (users r),
                         nameChangedSlots := nameChangedSlots r @ [u]\<rparr>)"
proof (rule registry_invI)
  note d = registry_invD [OF assms(1)]
  let ?r' = "r\<lparr>users := hash_insert (userName r u) u (users r),
               nameChangedSlots := nameChangedSlots r @ [u]\<rparr>"
  have new: "(userName r u, u) \<notin> set (users r)" using assms(2) by (simp add: in_values_of)
  show "distinct (users ?r')" using new d(1) by (simp add: hash_insert_def)
  show "distinct (usersLeft ?r')" using d(2) by simp
  fix n v assume "(n, v) \<in> set (users ?r')"
  then consider "n = userName r u" "v = u" | "(n, v) \<in> set (users r)"
    by (auto simp add: hash_insert_def)
  then show "n = userName ?r' v \<and> v \<in> set (nameChangedSlots ?r')"
  proof cases
    case 1
    then show ?thesis by simp
  next
    case 2
    then show ?thesis using d(3) [OF 2] d(4) [OF 2] by simp
  qed
qed

lemma registry_inv_Leave:
  assumes "registry_inv r"
  shows "registry_inv (processStateEvent (Some (Event k (RoomMemberEvent u Leave dn))) r)"
proof (rule registry_invI)
  let ?r1 = "User_processEvent u dn r"
  let ?r' = "processStateEvent (Some (Event k (RoomMemberEvent u Leave dn))) r"
  have i1: "registry_inv ?r1" using assms by (rule registry_inv_User_processEvent)
  note d = registry_invD [OF i1]
  show "distinct (users ?r')" using d(1) by (simp add: processStateEvent_Leave distinct_hash_remove)
  show "distinct (usersLeft ?r')" using d(2) by (simp add: processStateEvent_Leave)
  fix n v assume "(n, v) \<in> set (users ?r')"
  then have m: "(n, v) \<in> set (users ?r1)" and ne: "(n, v) \<noteq> (dn, u)"
    by (simp_all add: processStateEvent_Leave set_hash_remove)
  have "n = userName ?r1 v" using d(3) [OF m] .
  then have nv: "n = ((userName r)(u := dn)) v" by simp
  then have "v \<noteq> u" using ne by auto
  then show "n = userName ?r' v \<and> v \<in> set (nameChangedSlots ?r')"
    using nv d(4) [OF m] by (simp add: processStateEvent_Leave)
qed

lemma registry_inv_processStateEvent:
  assumes "registry_inv r"
  shows "registry_inv (processStateEvent e r)"
proof (cases e)
  case None
  then show ?thesis using assms by (simp add: processStateEvent_def)
next
  case (Some ev)
  show ?thesis
  proof (cases "content ev")
    case (RoomMemberEvent u m dn)
    let ?r1 = "User_processEvent u dn r"
    have i1: "registry_inv ?r1" using assms by (rule registry_inv_User_processEvent)
    have ev: "ev = Event (orderKey ev) (RoomMemberEvent u m dn)"
      using RoomMemberEvent by (cases ev) simp
    show ?thesis
    proof (cases "m = Join \<and> u \<notin> set (values_of (users ?r1) dn)")
      case True
      then have "u \<notin> set (values_of (users ?r1) (userName ?r1 u))" by simp
      from registry_inv_Join [OF i1 this] True show ?thesis
        using Some RoomMemberEvent by (simp add: processStateEvent_def Let_def)
    next
      case notjoin: False
      show ?thesis
      proof (cases "m = Leave")
        case True
        show ?thesis
          unfolding Some using registry_inv_Leave [OF assms, of "orderKey ev" u dn] ev True
          by simp
      next
        case False
        then have "processStateEvent e r = ?r1"
          using notjoin Some RoomMemberEvent by (auto simp add: processStateEvent_def Let_def)
        then show ?thesis using i1 by simp
      qed
    qed
  next
    case (RoomMessageEvent x)
    then show ?thesis using assms Some by (simp add: processStateEvent_def)
  next
    case (RoomNameEvent x)
    then show ?thesis using assms Some by (simp add: processStateEvent_def registry_inv_def)
  next
    case (RoomAliasesEvent x)
    then show ?thesis using assms Some by (simp add: processStateEvent_def registry_inv_def)
  next
    case (RoomCanonicalAliasEvent x)
    then show ?thesis using assms Some by (simp add: processStateEvent_def registry_inv_def)
  next
    case (RoomTopicEvent x)
    then show ?thesis using assms Some by (simp add: processStateEvent_def registry_inv_def)
  next
    case (TypingEvent x)
    then show ?thesis using assms Some by (simp add: processStateEvent_def)
  next
    case (ReceiptEvent x)
    then show ?thesis using assms Some by (simp add: processStateEvent_def)
  next
    case UnknownEvent
    then show ?thesis using assms Some by (simp add: processStateEvent_def)
  qed
qed

lemma registry_inv_fold:
  "registry_inv r \<Longrightarrow> registry_inv (fold processStateEvent evs r)"
  by (induction evs arbitrary: r) (simp_all add: registry_inv_processStateEvent)

lemma registry_inv_Room_new: "registry_inv (Room_new nd self names h0 n0 i)"
  by (simp add: registry_inv_def Room_new_def)

lemma at_most_once:
  assumes "distinct xs" "\<And>x. x \<in> set xs \<Longrightarrow> P x \<Longrightarrow> x = a"
  shows "length (filter P xs) \<le> 1"
proof -
  have "distinct (filter P xs)" using assms(1) by simp
  then have "length (filter P xs) = card (set (filter P xs))"
    by (rule distinct_card [symmetric])
  also have "\<dots> \<le> card {a}"
    by (rule card_mono) (use assms(2) in auto)
  finally show ?thesis by simp
qed

lemma registry_inv_once:
  assumes "registry_inv r"
  shows "length (filter (\<lambda>p. snd p = u) (users r)) \<le> 1"
    and "length (filter (\<lambda>v. v = u) (usersLeft r)) \<le> 1"
proof -
  note d = registry_invD [OF assms]
  show "length (filter (\<lambda>p. snd p = u) (users r)) \<le> 1"
  proof (rule at_most_once [where a = "(userName r u, u)"])
    show "distinct (users r)" by (rule d(1))
    fix x assume a: "x \<in> set (users r)" "snd x = u"
    then have "(fst x, u) \<in> set (users r)" by (metis prod.collapse)
    from d(3) [OF this] a(2) show "x = (userName r u, u)" by (metis prod.collapse)
  qed
  show "length (filter (\<lambda>v. v = u) (usersLeft r)) \<le> 1"
    by (rule at_most_once [where a = u]) (use d(2) in simp_all)
qed

lemma usersLeft_processStateEvent_mono:
  "set (usersLeft r) \<subseteq> set (usersLeft (processStateEvent e r))"
  by (auto simp add: processStateEvent_def Let_def split: option.splits EventContent.splits)

lemma usersLeft_fold_mono:
  "set (usersLeft r) \<subseteq> set (usersLeft (fold processStateEvent evs r))"
proof (induction evs arbitrary: r)
  case Nil
  then show ?case by simp
next
  case (Cons e evs)
  have "set (usersLeft r) \<subseteq> set (usersLeft (processStateEvent e r))"
    by (rule usersLeft_processStateEvent_mono)
  also have "\<dots> \<subseteq> set (usersLeft (fold processStateEvent evs (processStateEvent e r)))"
    by (rule Cons.IH)
  finally show ?case by simp
qed

lemma Leave_removes:
  assumes "registry_inv r"
  shows "u \<notin> snd ` set (users (processStateEvent (Some (Event k (RoomMemberEvent u Leave dn))) r))"
proof
  let ?r1 = "User_processEvent u dn r"
  assume "u \<in> snd ` set (users (processStateEvent (Some (Event k (RoomMemberEvent u Leave dn))) r))"
  then obtain n where "(n, u) \<in> set (users (processStateEvent (Some (Event k (RoomMemberEvent u Leave dn))) r))"
    by force
  then have m: "(n, u) \<in> set (users ?r1)" and ne: "(n, u) \<noteq> (dn, u)"
    by (simp_all add: processStateEvent_Leave set_hash_remove)
  have "registry_inv ?r1" using assms by (rule registry_inv_User_processEvent)
  from registry_invD(3) [OF this m] have "n = dn" by simp
  then show False using ne by simp
qed

lemma Join_keeps_usersLeft:
  "usersLeft (processStateEvent (Some (Event k (RoomMemberEvent u Join dn))) r) = usersLeft r"
  by (simp add: processStateEvent_def Let_def)

lemma users_User_processEvent_other:
  assumes "u \<notin> snd ` set (users r)"
  shows "u \<notin> snd ` set (users (User_processEvent v dn r))"
proof (cases "v = u")
  case True
  then show ?thesis using assms by (simp add: User_processEvent_users_absent)
next
  case False
  have "snd ` set (users (renameUser v old x)) \<subseteq> insert v (snd ` set (users x))" for old x
    by (auto simp add: users_renameUser set_hash_remove)
  then have "u \<notin> snd ` set (users (renameUser v old x))" if "u \<notin> snd ` set (users x)" for old x
    using that False by blast
  then show ?thesis using assms by (simp add: User_processEvent_eq)
qed

lemma absent_stays_absent:
  assumes "u \<notin> snd ` set (users r)" "\<not> is_Join u e"
  shows "u \<notin> snd ` set (users (processStateEvent e r))"
proof (cases e)
  case None
  then show ?thesis using assms by (simp add: processStateEvent_def)
next
  case (Some ev)
  show ?thesis
  proof (cases "content ev")
    case (RoomMemberEvent v m dn)
    have a: "u \<notin> snd ` set (users (User_processEvent v dn r))"
      using assms(1) by (rule users_User_processEvent_other)
    have nj: "\<not> (v = u \<and> m = Join)"
      using assms(2) Some RoomMemberEvent by (simp add: is_Join_def)
    have "snd ` set (users (processStateEvent e r))
        \<subseteq> (if m = Join then {v} else {}) \<union> snd ` set (users (User_processEvent v dn r))"
      using Some RoomMemberEvent
      by (auto simp add: processStateEvent_def Let_def hash_insert_def set_hash_remove)
    then show ?thesis using a nj by (auto split: if_splits)
  qed (use assms Some in \<open>simp_all add: processStateEvent_def\<close>)
qed

lemma not_left_stays:
  assumes "u \<notin> set (usersLeft r)" "\<not> is_Leave u e"
  shows "u \<notin> set (usersLeft (processStateEvent e r))"
proof (cases e)
  case None
  then show ?thesis using assms by (simp add: processStateEvent_def)
next
  case (Some ev)
  show ?thesis
  proof (cases "content ev")
    case (RoomMemberEvent v m dn)
    have nl: "\<not> (v = u \<and> m = Leave)"
      using assms(2) Some RoomMemberEvent by (simp add: is_Leave_def)
    have "set (usersLeft (processStateEvent e r))
        \<subseteq> (if m = Leave then {v} else {}) \<union> set (usersLeft r)"
      using Some RoomMemberEvent by (auto simp add: processStateEvent_def Let_def)
    then show ?thesis using assms(1) nl by (auto split: if_splits)
  qed (use assms Some in \<open>simp_all add: processStateEvent_def\<close>)
qed

lemma is_Leave_removes:
  assumes "registry_inv r" "is_Leave u e"
  shows "u \<notin> snd ` set (users (processStateEvent e r))"
proof -
  obtain ev where e: "e = Some ev" using assms(2) by (cases e) (simp_all add: is_Leave_def)
  obtain dn where c: "content ev = RoomMemberEvent u Leave dn"
    using assms(2) e by (cases "content ev") (simp_all add: is_Leave_def)
  have "ev = Event (orderKey ev) (RoomMemberEvent u Leave dn)" using c by (cases ev) simp
  then have "e = Some (Event (orderKey ev) (RoomMemberEvent u Leave dn))" using e by simp
  then show ?thesis using Leave_removes [OF assms(1), of u "orderKey ev" dn] by simp
qed

lemma exclusive_until_rejoin:
  assumes "registry_inv r" "left \<longrightarrow> u \<notin> snd ` set (users r)"
    "\<not> left \<longrightarrow> u \<notin> set (usersLeft r)" "no_rejoin u left evs"
  shows "u \<notin> snd ` set (users (fold processStateEvent evs r)) \<or>
         u \<notin> set (usersLeft (fold processStateEvent evs r))"
  using assms
proof (induction evs arbitrary: r left)
  case Nil
  then show ?case by (cases left) simp_all
next
  case (Cons e es)
  have i: "registry_inv (processStateEvent e r)"
    using Cons.prems(1) by (rule registry_inv_processStateEvent)
  show ?case
  proof (cases "is_Leave u e")
    case True
    have "u \<notin> snd ` set (users (processStateEvent e r))"
      using Cons.prems(1) True by (rule is_Leave_removes)
    moreover have "no_rejoin u True es" using Cons.prems(4) True by simp
    ultimately show ?thesis using Cons.IH [OF i, of True] by simp
  next
    case nl: False
    show ?thesis
    proof (cases "is_Join u e")
      case True
      then have l: "\<not> left" and n: "no_rejoin u left es" using Cons.prems(4) nl by auto
      have "u \<notin> set (usersLeft (processStateEvent e r))"
        using Cons.prems(3) l nl by (simp add: not_left_stays)
      then show ?thesis using Cons.IH [OF i, of left] l n by simp
    next
      case False
      have n: "no_rejoin u left es" using Cons.prems(4) nl False by simp
      have a: "left \<longrightarrow> u \<notin> snd ` set (users (processStateEvent e r))"
        using Cons.prems(2) False by (simp add: absent_stays_absent)
      have b: "\<not> left \<longrightarrow> u \<notin> set (usersLeft (processStateEvent e r))"
        using Cons.prems(3) nl by (simp add: not_left_stays)
      show ?thesis using Cons.IH [OF i a b n] by simp
    qed
  qed
qed

lemma Join_inserts:
  "u \<in> snd ` set (users (processStateEvent (Some (Event k (RoomMemberEvent u Join dn))) r))"
proof (cases "u \<in> set (values_of (users (User_processEvent u dn r)) dn)")
  case True
  then have "(dn, u) \<in> set (users (User_processEvent u dn r))" by (simp add: in_values_of)
  then have "u \<in> snd ` set (users (User_processEvent u dn r))" by force
  then show ?thesis using True by (simp add: processStateEvent_def Let_def)
next
  case False
  then show ?thesis by (simp add: processStateEvent_def Let_def hash_insert_def)
qed

section \<open>Membership over sequences of events\<close>

text \<open>
  C1, as the code has it. From a room whose registry is consistent (a new room
  is), after any sequence of state events the membership registry holds a given
  user at most once and so does the list of users who left. For a user who is
  not in that list at the start, the two stay exclusive as long as no Join of
  the user comes after a Leave of the user. Right after a Leave event the user
  is out of the registry and in the list. The list only grows: a Join event
  leaves it as it is and puts the user in the registry, so a user who leaves and
  then joins again, whatever happens in between, is in both.
\<close>

theorem registry_and_usersLeft_at_most_once:
  "registry_inv (Room_new nd self names h0 n0 i) \<and>
   (registry_inv r \<longrightarrow>
     length (filter (\<lambda>p. snd p = u) (users (fold processStateEvent evs r))) \<le> 1 \<and>
     length (filter (\<lambda>v. v = u) (usersLeft (fold processStateEvent evs r))) \<le> 1 \<and>
     set (usersLeft r) \<subseteq> set (usersLeft (fold processStateEvent evs r)) \<and>
     u \<notin> snd ` set (users (processStateEvent (Some (Event k (RoomMemberEvent u Leave dn)))
                          (fold processStateEvent evs r))) \<and>
     u \<in> set (usersLeft (processStateEvent (Some (Event k (RoomMemberEvent u Leave dn)))
                          (fold processStateEvent evs r))) \<and>
     usersLeft (processStateEvent (Some (Event k (RoomMemberEvent u Join dn)))
                          (fold processStateEvent evs r))
       = usersLeft (fold processStateEvent evs r)) \<and>
   (registry_inv r \<and> u \<notin> set (usersLeft r) \<and> no_rejoin u False evs \<longrightarrow>
     u \<notin> snd ` set (users (fold processStateEvent evs r)) \<or>
     u \<notin> set (usersLeft (fold processStateEvent evs r))) \<and>
   u \<in> snd ` set (users (processStateEvent (Some (Event k (RoomMemberEvent u Join dn))) r)) \<and>
   u \<in> snd ` set (users
         (processStateEvent (Some (Event k' (RoomMemberEvent u Join dn')))
           (fold processStateEvent evs
             (processStateEvent (Some (Event k (RoomMemberEvent u Leave dn))) r)))) \<and>
   u \<in> set (usersLeft
         (processStateEvent (Some (Event k' (RoomMemberEvent u Join dn')))
           (fold processStateEvent evs
             (processStateEvent (Some (Event k (RoomMemberEvent u Leave dn))) r))))"
proof (intro conjI)
  show "registry_inv (Room_new nd self names h0 n0 i)" by (rule registry_inv_Room_new)
  have "length (filter (\<lambda>p. snd p = u) (users (fold processStateEvent evs r))) \<le> 1 \<and>
     length (filter (\<lambda>v. v = u) (usersLeft (fold processStateEvent evs r))) \<le> 1 \<and>
     set (usersLeft r) \<subseteq> set (usersLeft (fold processStateEvent evs r)) \<and>
     u \<notin> snd ` set (users (processStateEvent (Some (Event k (RoomMemberEvent u Leave dn)))
                          (fold processStateEvent evs r))) \<and>
     u \<in> set (usersLeft (processStateEvent (Some (Event k (RoomMemberEvent u Leave dn)))
                          (fold processStateEvent evs r))) \<and>
     usersLeft (processStateEvent (Some (Event k (RoomMemberEvent u Join dn)))
                          (fold processStateEvent evs r))
       = usersLeft (fold processStateEvent evs r)"
    if "registry_inv r"
  proof -
    have i: "registry_inv (fold processStateEvent evs r)"
      using that by (rule registry_inv_fold)
    show ?thesis
      using registry_inv_once [OF i, of u] usersLeft_fold_mono [of r evs]
        Leave_removes [OF i, of u k dn] Join_keeps_usersLeft
      by (simp add: processStateEvent_Leave(2))
  qed
  then show "registry_inv r \<longrightarrow>
     length (filter (\<lambda>p. snd p = u) (users (fold processStateEvent evs r))) \<le> 1 \<and>
     length (filter (\<lambda>v. v = u) (usersLeft (fold processStateEvent evs r))) \<le> 1 \<and>
     set (usersLeft r) \<subseteq> set (usersLeft (fold processStateEvent evs r)) \<and>
     u \<notin> snd ` set (users (processStateEvent (Some (Event k (RoomMemberEvent u Leave dn)))
                          (fold processStateEvent evs r))) \<and>
     u \<in> set (usersLeft (processStateEvent (Some (Event k (RoomMemberEvent u Leave dn)))
                          (fold processStateEvent evs r))) \<and>
     usersLeft (processStateEvent (Some (Event k (RoomMemberEvent u Join dn)))
                          (fold processStateEvent evs r))
       = usersLeft (fold processStateEvent evs r)"
    by (rule impI)
  show "registry_inv r \<and> u \<notin> set (usersLeft r) \<and> no_rejoin u False evs \<longrightarrow>
     u \<notin> snd ` set (users (fold processStateEvent evs r)) \<or>
     u \<notin> set (usersLeft (fold processStateEvent evs r))"
  proof
    assume a: "registry_inv r \<and> u \<notin> set (usersLeft r) \<and> no_rejoin u False evs"
    show "u \<notin> snd ` set (users (fold processStateEvent evs r)) \<or>
          u \<notin> set (usersLeft (fold processStateEvent evs r))"
      by (rule exclusive_until_rejoin [where left = False]) (use a in simp_all)
  qed
  show "u \<in> snd ` set (users (processStateEvent (Some (Event k (RoomMemberEvent u Join dn))) r))"
    by (rule Join_inserts)
  show "u \<in> snd ` set (users
         (processStateEvent (Some (Event k' (RoomMemberEvent u Join dn')))
           (fold processStateEvent evs
             (processStateEvent (Some (Event k (RoomMemberEvent u Leave dn))) r))))"
    by (rule Join_inserts)
  have "u \<in> set (usersLeft (processStateEvent (Some (Event k (RoomMemberEvent u Leave dn))) r))"
    by (simp add: processStateEvent_Leave(2))
  then have "u \<in> set (usersLeft (fold processStateEvent evs
             (processStateEvent (Some (Event k (RoomMemberEvent u Leave dn))) r)))"
    using usersLeft_fold_mono by blast
  then show "u \<in> set (usersLeft
         (processStateEvent (Some (Event k' (RoomMemberEvent u Join dn')))
           (fold processStateEvent evs
             (processStateEvent (Some (Event k (RoomMemberEvent u Leave dn))) r))))"
    by (simp add: Join_keeps_usersLeft)
qed

theorem registry_and_usersLeft_at_most_once_witness:
  "registry_inv (Room_new False ''@me:s'' unnamed 0 0 ''!r:s'') \<and>
   ''@x:s'' \<notin> set (usersLeft (Room_new False ''@me:s'' unnamed 0 0 ''!r:s'')) \<and>
   no_rejoin ''@x:s'' False
     [Some (Event 1 (RoomMemberEvent ''@x:s'' Join ''X'')),
      Some (Event 2 (RoomMemberEvent ''@x:s'' Leave ''X''))] \<and>
   length (filter (\<lambda>p. snd p = ''@x:s'')
     (users (fold processStateEvent
        [Some (Event 1 (RoomMemberEvent ''@x:s'' Join ''X'')),
         Some (Event 2 (RoomMemberEvent ''@x:s'' Leave ''X''))]
        (Room_new False ''@me:s'' unnamed 0 0 ''!r:s'')))) \<le> 1 \<and>
   length (filter (\<lambda>v. v = ''@x:s'')
     (usersLeft (fold processStateEvent
        [Some (Event 1 (RoomMemberEvent ''@x:s'' Join ''X'')),
         Some (Event 2 (RoomMemberEvent ''@x:s'' Leave ''X''))]
        (Room_new False ''@me:s'' unnamed 0 0 ''!r:s'')))) \<le> 1 \<and>
   ''@x:s'' \<in> set (usersLeft (fold processStateEvent
        [Some (Event 1 (RoomMemberEvent ''@x:s'' Join ''X'')),
         Some (Event 2 (RoomMemberEvent ''@x:s'' Leave ''X''))]
        (Room_new False ''@me:s'' unnamed 0 0 ''!r:s''))) \<and>
   ''@x:s'' \<notin> snd ` set (users (fold processStateEvent
        [Some (Event 1 (RoomMemberEvent ''@x:s'' Join ''X'')),
         Some (Event 2 (RoomMemberEvent ''@x:s'' Leave ''X''))]
        (Room_new False ''@me:s'' unnamed 0 0 ''!r:s'')))"
proof -
  have h3: "''@x:s'' \<in> set (usersLeft (fold processStateEvent
        [Some (Event 1 (RoomMemberEvent ''@x:s'' Join ''X'')),
         Some (Event 2 (RoomMemberEvent ''@x:s'' Leave ''X''))]
        (Room_new False ''@me:s'' unnamed 0 0 ''!r:s'')))"
    by (simp add: processStateEvent_Leave(2))
  have h1: "''@x:s'' \<notin> set (usersLeft (Room_new False ''@me:s'' unnamed 0 0 ''!r:s''))"
    by (simp add: Room_new_def)
  have h2: "no_rejoin ''@x:s'' False
     [Some (Event 1 (RoomMemberEvent ''@x:s'' Join ''X'')),
      Some (Event 2 (RoomMemberEvent ''@x:s'' Leave ''X''))]"
    by (simp add: is_Join_def is_Leave_def)
  show ?thesis
    using h1 h2 h3 registry_and_usersLeft_at_most_once
      [of False "''@me:s''" unnamed 0 0 "''!r:s''"
          "Room_new False ''@me:s'' unnamed 0 0 ''!r:s''" "''@x:s''"
          "[Some (Event 1 (RoomMemberEvent ''@x:s'' Join ''X'')),
            Some (Event 2 (RoomMemberEvent ''@x:s'' Leave ''X''))]" 4 "''X''" 5 "''X''"]
    by blast
qed

text \<open>
  C1 as stated fails: after Join, Leave, Join the user is in the registry and
  in the list of users who left.
\<close>

theorem rejoin_in_both_counterexample:
  "users (fold processStateEvent
        [Some (Event 1 (RoomMemberEvent ''@x:s'' Join ''X'')),
         Some (Event 2 (RoomMemberEvent ''@x:s'' Leave ''X'')),
         Some (Event 3 (RoomMemberEvent ''@x:s'' Join ''X''))]
        (Room_new False ''@me:s'' unnamed 0 0 ''!r:s'')) = [(''X'', ''@x:s'')] \<and>
   usersLeft (fold processStateEvent
        [Some (Event 1 (RoomMemberEvent ''@x:s'' Join ''X'')),
         Some (Event 2 (RoomMemberEvent ''@x:s'' Leave ''X'')),
         Some (Event 3 (RoomMemberEvent ''@x:s'' Join ''X''))]
        (Room_new False ''@me:s'' unnamed 0 0 ''!r:s'')) = [''@x:s'']"
  by code_simp

section \<open>The two slots and the place markers\<close>







lemma digit_char_not_percent: "digit_char d \<noteq> CHR ''%''"
proof -
  have "d mod 10 < length ''0123456789''" by simp
  then have "digit_char d \<in> set ''0123456789''"
    unfolding digit_char_def by (rule nth_mem)
  then show ?thesis by auto
qed

lemma decimal_no_percent: "CHR ''%'' \<notin> set (decimal n)"
proof (induction n rule: decimal.induct)
  case (1 n)
  show ?case
  proof (cases "n < 10")
    case True
    then show ?thesis using digit_char_not_percent [of n] by (simp add: decimal.simps [of n])
  next
    case False
    then show ?thesis
      using 1 digit_char_not_percent [of n] by (auto simp add: decimal.simps [of n])
  qed
qed


section \<open>The label of a list of users\<close>




text \<open>
  Why the name must hold no \<^verbatim>\<open>%\<close>: the second \<^verbatim>\<open>arg\<close> replaces the lowest
  place marker of the string the first \<^verbatim>\<open>arg\<close> returned, and a marker inside the
  inserted name is lower than \<^verbatim>\<open>%2\<close>.
\<close>

lemma place_marker_in_name:
  "QString_arg_int (QString_arg ''%1 and %2 others'' ''%1'') 1 = ''1 and %2 others''"
  by code_simp

section \<open>The two least users, whatever the order\<close>














section \<open>The display name: determinism and notification\<close>




end
